theory Spec2Isabelle
  imports Main "HOL-Library.Word"
begin

unbundle bit_operations_syntax

section \<open>The ordered reference list of \<open>misc.c\<close>\<close>

subsection \<open>Pointers, nodes and the store\<close>

text \<open>
  A pointer is an address or NULL (\<open>None\<close>). The store maps the address of every live
  \<open>struct ssh_iterator\<close> to its contents; \<open>data\<close> is an opaque \<open>const void *\<close>, stored
  and returned, never followed.

  Modelled from the spec: the declarations of \<open>struct ssh_list\<close> and
  \<open>struct ssh_iterator\<close> are in a header that is not among the sources. The fields are
  the ones \<open>misc.c\<close> uses and the data model of the specification lists: \<open>next\<close> and
  \<open>data\<close> of a node, \<open>root\<close> and \<open>end\<close> of a list. They carry a prefix here because
  \<open>next\<close> and \<open>end\<close> are reserved words.
\<close>

type_synonym addr = nat
type_synonym ptr = "addr option"

record ssh_iterator =
  iter_next :: ptr
  iter_data :: ptr

record ssh_list =
  list_root :: ptr
  list_end :: ptr

type_synonym heap = "addr \<Rightarrow> ssh_iterator option"

text \<open>Reading or writing through a pointer that is not a live node is undefined in C.\<close>

datatype fault = Invalid_Pointer

text \<open>
  Modelled from the spec: the macros \<open>SSH_OK\<close> and \<open>SSH_ERROR\<close> come from a header that
  is not part of the sources at hand; the specification only requires a distinguished
  failure value. The values are the ones of the library's public header.
\<close>

definition SSH_OK :: int where
  "SSH_OK = 0"

definition SSH_ERROR :: int where
  "SSH_ERROR = - 1"

subsection \<open>The operations\<close>

text \<open>\<open>ssh_list_new\<close>: the argument says whether \<open>malloc\<close> delivered the list object.\<close>

definition ssh_list_new :: "bool \<Rightarrow> ssh_list option" where
  "ssh_list_new malloc_ok =
     (if \<not> malloc_ok then None
      else Some \<lparr>list_root = None, list_end = None\<rparr>)"

definition ssh_list_get_iterator :: "ssh_list \<Rightarrow> ptr" where
  "ssh_list_get_iterator l = list_root l"

text \<open>
  \<open>ssh_iterator_new\<close>: the last argument is what \<open>malloc\<close> returned, NULL or the address of
  a block that was not live before.
\<close>

definition ssh_iterator_new :: "heap \<Rightarrow> ptr \<Rightarrow> ptr \<Rightarrow> ptr \<times> heap" where
  "ssh_iterator_new h data_ref malloc_result =
     (case malloc_result of
        None \<Rightarrow> (None, h)
      | Some a \<Rightarrow> (Some a, h(a \<mapsto> \<lparr>iter_next = None, iter_data = data_ref\<rparr>)))"

definition ssh_list_add ::
  "heap \<Rightarrow> ssh_list \<Rightarrow> ptr \<Rightarrow> ptr \<Rightarrow> fault + (int \<times> heap \<times> ssh_list)" where
  "ssh_list_add h l data_ref malloc_result =
     (case ssh_iterator_new h data_ref malloc_result of
        (None, h1) \<Rightarrow> Inr (SSH_ERROR, h1, l)
      | (Some it, h1) \<Rightarrow>
          (case list_end l of
             None \<Rightarrow> Inr (SSH_OK, h1, l\<lparr>list_root := Some it, list_end := Some it\<rparr>)
           | Some e \<Rightarrow>
               (case h1 e of
                  None \<Rightarrow> Inl Invalid_Pointer
                | Some n \<Rightarrow>
                    Inr (SSH_OK, h1(e \<mapsto> n\<lparr>iter_next := Some it\<rparr>),
                         l\<lparr>list_end := Some it\<rparr>))))"

text \<open>
  The search loop of \<open>ssh_list_remove\<close>:
  \<open>while (ptr && ptr != iterator) { prev = ptr; ptr = ptr->next; }\<close>.
  It need not end on a cyclic chain, hence \<open>None\<close> stands for a loop that runs forever.
\<close>

partial_function (option) remove_scan ::
  "heap \<Rightarrow> ptr \<Rightarrow> ptr \<Rightarrow> ptr \<Rightarrow> (fault + (ptr \<times> ptr)) option" where
  "remove_scan h iterator prev p =
     (case p of
        None \<Rightarrow> Some (Inr (prev, p))
      | Some a \<Rightarrow>
          if p = iterator then Some (Inr (prev, p))
          else (case h a of
                  None \<Rightarrow> Some (Inl Invalid_Pointer)
                | Some n \<Rightarrow> remove_scan h iterator p (iter_next n)))"

text \<open>The statements after the loop, in the order of the source.\<close>

definition remove_unlink ::
  "heap \<Rightarrow> ssh_list \<Rightarrow> ptr \<Rightarrow> ptr \<Rightarrow> addr \<Rightarrow> fault + (heap \<times> ssh_list)" where
  "remove_unlink h l iterator prev a =
     (case h a of
        None \<Rightarrow> Inl Invalid_Pointer
      | Some n \<Rightarrow>
          (case (case prev of
                   None \<Rightarrow> Inr h
                 | Some q \<Rightarrow>
                     (case h q of
                        None \<Rightarrow> Inl Invalid_Pointer
                      | Some m \<Rightarrow> Inr (h(q \<mapsto> m\<lparr>iter_next := iter_next n\<rparr>)))) of
             Inl f \<Rightarrow> Inl f
           | Inr h1 \<Rightarrow>
               (case (if list_root l = iterator
                      then (case h1 a of
                              None \<Rightarrow> Inl Invalid_Pointer
                            | Some n1 \<Rightarrow> Inr (l\<lparr>list_root := iter_next n1\<rparr>))
                      else Inr l) of
                  Inl f \<Rightarrow> Inl f
                | Inr l1 \<Rightarrow>
                    (let l2 = (if list_end l1 = iterator then l1\<lparr>list_end := prev\<rparr> else l1)
                     in Inr (h1(a := None), l2)))))"

definition ssh_list_remove ::
  "heap \<Rightarrow> ssh_list \<Rightarrow> ptr \<Rightarrow> (fault + (heap \<times> ssh_list)) option" where
  "ssh_list_remove h l iterator =
     (case remove_scan h iterator None (list_root l) of
        None \<Rightarrow> None
      | Some (Inl f) \<Rightarrow> Some (Inl f)
      | Some (Inr (prev, p)) \<Rightarrow>
          (case p of
             None \<Rightarrow> Some (Inr (h, l))
           | Some a \<Rightarrow> Some (remove_unlink h l iterator prev a)))"

text \<open>\<open>_ssh_list_get_head\<close> (an identifier cannot start with an underscore here).\<close>

definition ssh_list_get_head :: "heap \<Rightarrow> ssh_list \<Rightarrow> fault + (ptr \<times> heap \<times> ssh_list)" where
  "ssh_list_get_head h l =
     (case list_root l of
        None \<Rightarrow> Inr (None, h, l)
      | Some a \<Rightarrow>
          (case h a of
             None \<Rightarrow> Inl Invalid_Pointer
           | Some n \<Rightarrow>
               (let l1 = l\<lparr>list_root := iter_next n\<rparr>;
                    l2 = (if list_end l1 = Some a then l1\<lparr>list_end := None\<rparr> else l1)
                in Inr (iter_data n, h(a := None), l2))))"

subsection \<open>Walking the list, and what a well-formed list is\<close>

text \<open>
  Modelled from the spec: the walk over a list is the caller's loop
  \<open>for (it = ssh_list_get_iterator(list); it != NULL; it = it->next)\<close>, which the
  specification describes as reading \<open>next\<close> repeatedly until the absent value is reached.
  \<open>seen\<close> collects the data references in the order of the visit. The walk need not end on
  a cyclic chain (\<open>None\<close>), and it faults on a pointer that is not a live node.
\<close>

partial_function (option) ssh_list_traverse ::
  "heap \<Rightarrow> ptr \<Rightarrow> ptr list \<Rightarrow> (fault + ptr list) option" where
  "ssh_list_traverse h p seen =
     (case p of
        None \<Rightarrow> Some (Inr seen)
      | Some a \<Rightarrow>
          (case h a of
             None \<Rightarrow> Some (Inl Invalid_Pointer)
           | Some n \<Rightarrow> ssh_list_traverse h (iter_next n) (seen @ [iter_data n])))"

text \<open>
  A sequence of \<open>ssh_list_add\<close> calls, each with the address its \<open>malloc\<close> delivers and
  the data reference to store; the result has the return code of every call.
\<close>

fun ssh_list_add_all ::
  "heap \<Rightarrow> ssh_list \<Rightarrow> (addr \<times> ptr) list \<Rightarrow> fault + (int list \<times> heap \<times> ssh_list)" where
  "ssh_list_add_all h l [] = Inr ([], h, l)"
| "ssh_list_add_all h l ((a, d) # xs) =
     (case ssh_list_add h l d (Some a) of
        Inl f \<Rightarrow> Inl f
      | Inr (rc, h1, l1) \<Rightarrow>
          (case ssh_list_add_all h1 l1 xs of
             Inl f \<Rightarrow> Inl f
           | Inr (rcs, h2, l2) \<Rightarrow> Inr (rc # rcs, h2, l2)))"

text \<open>
  \<open>chain h p as\<close>: starting at \<open>p\<close> and following \<open>next\<close>, the live nodes \<open>as\<close> are
  visited in this order and the last one has a NULL link.
\<close>

fun chain :: "heap \<Rightarrow> ptr \<Rightarrow> addr list \<Rightarrow> bool" where
  "chain h p [] = (p = None)"
| "chain h p (a # as) =
     (p = Some a \<and> (case h a of None \<Rightarrow> False | Some n \<Rightarrow> chain h (iter_next n) as))"

definition node_data :: "heap \<Rightarrow> addr \<Rightarrow> ptr" where
  "node_data h a = (case h a of None \<Rightarrow> None | Some n \<Rightarrow> iter_data n)"

text \<open>
  The invariant of the list, with the nodes of the chain made explicit: the chain from
  \<open>root\<close> consists of the nodes \<open>as\<close> and ends with a NULL link, no node occurs twice,
  \<open>root\<close> is NULL exactly when \<open>end\<close> is, and \<open>end\<close> points to the last node of the chain.
\<close>

definition list_inv :: "heap \<Rightarrow> ssh_list \<Rightarrow> addr list \<Rightarrow> bool" where
  "list_inv h l as =
     (chain h (list_root l) as \<and> distinct as \<and>
      (list_root l = None) = (list_end l = None) \<and>
      list_end l = (if as = [] then None else Some (last as)))"

text \<open>The invariant together with the data references the nodes hold.\<close>

definition list_holds :: "heap \<Rightarrow> ssh_list \<Rightarrow> addr list \<Rightarrow> ptr list \<Rightarrow> bool" where
  "list_holds h l as ds = (list_inv h l as \<and> map (node_data h) as = ds)"

text \<open>
  A store with three live nodes and a list of the first two, for concrete checks:
  node 1 holds the reference 10 and points to node 2, which holds 20; node 3 is live
  and belongs to no list.
\<close>

definition example_heap :: heap where
  "example_heap =
     [1 \<mapsto> \<lparr>iter_next = Some 2, iter_data = Some 10\<rparr>,
      2 \<mapsto> \<lparr>iter_next = None, iter_data = Some 20\<rparr>,
      3 \<mapsto> \<lparr>iter_next = None, iter_data = Some 30\<rparr>]"

definition example_list :: ssh_list where
  "example_list = \<lparr>list_root = Some 1, list_end = Some 2\<rparr>"

section \<open>\<open>ntohll\<close> and the path functions of \<open>misc.c\<close>\<close>

subsection \<open>\<open>ntohll\<close>\<close>

text \<open>
  \<open>ntohl\<close> belongs to the C library, not to this program. On a little-endian host, the
  only one where \<open>ntohll\<close> calls it, it reverses the four bytes of its argument: byte
  \<open>i\<close> of the argument becomes byte \<open>3 - i\<close> of the result.
\<close>

definition ntohl :: "32 word \<Rightarrow> 32 word" where
  "ntohl x =
     push_bit 24 (take_bit 8 x) OR
     push_bit 16 (take_bit 8 (drop_bit 8 x)) OR
     push_bit 8 (take_bit 8 (drop_bit 16 x)) OR
     take_bit 8 (drop_bit 24 x)"

text \<open>The first argument says whether \<open>WORDS_BIGENDIAN\<close> is defined.\<close>

definition ntohll :: "bool \<Rightarrow> 64 word \<Rightarrow> 64 word" where
  "ntohll words_bigendian a =
     (if words_bigendian then a
      else
        (let low = (ucast (a AND 0xffffffff) :: 32 word);
             high = (ucast (drop_bit 32 a) :: 32 word);
             low = ntohl low;
             high = ntohl high
         in push_bit 32 (ucast low :: 64 word) OR ucast high))"

subsection \<open>\<open>ssh_dirname\<close> and \<open>ssh_basename\<close>\<close>

text \<open>
  A path is the list of the characters before the terminating NUL, or \<open>None\<close> for the
  NULL pointer; a result is \<open>None\<close> when the function returns NULL. Both functions keep
  lengths in an \<open>unsigned int\<close>, so the \<open>size_t\<close> that \<open>strlen\<close> returns is reduced
  modulo \<open>2 ^ 32\<close>. Each call allocates once, with \<open>strdup\<close> or \<open>malloc\<close>; the first
  argument says whether that allocation succeeds.
\<close>

definition uint_of_size :: "nat \<Rightarrow> nat" where
  "uint_of_size n = n mod 2 ^ 32"

definition strdup :: "bool \<Rightarrow> string \<Rightarrow> string option" where
  "strdup alloc_ok s = (if alloc_ok then Some s else None)"

text \<open>\<open>while (len > 0 && path[len - 1] == '/') --len;\<close>\<close>

fun skip_slashes :: "string \<Rightarrow> nat \<Rightarrow> nat" where
  "skip_slashes path 0 = 0"
| "skip_slashes path (Suc n) =
     (if path ! n = CHR ''/'' then skip_slashes path n else Suc n)"

text \<open>\<open>while (len > 0 && path[len - 1] != '/') --len;\<close>\<close>

fun skip_component :: "string \<Rightarrow> nat \<Rightarrow> nat" where
  "skip_component path 0 = 0"
| "skip_component path (Suc n) =
     (if path ! n \<noteq> CHR ''/'' then skip_component path n else Suc n)"

text \<open>
  Both loops start at a length that is at most \<open>strlen\<close> of the string they index and
  only decrease it, so every \<open>path[len - 1]\<close> they read is a character of the string.
  \<open>strncpy\<close> with the final NUL copies the first \<open>len\<close> characters.
\<close>

definition ssh_dirname :: "bool \<Rightarrow> string option \<Rightarrow> string option" where
  "ssh_dirname alloc_ok path =
     (case path of
        None \<Rightarrow> strdup alloc_ok ''.''
      | Some p \<Rightarrow>
          if p = [] then strdup alloc_ok ''.''
          else
            (let len = uint_of_size (length p);
                 len = skip_slashes p len
             in if len = 0 then strdup alloc_ok ''/''
                else
                  (let len = skip_component p len
                   in if len = 0 then strdup alloc_ok ''.''
                      else if len = 1 then strdup alloc_ok ''/''
                      else
                        (let len = skip_slashes p len
                         in if \<not> alloc_ok then None else Some (take len p)))))"

definition ssh_basename :: "bool \<Rightarrow> string option \<Rightarrow> string option" where
  "ssh_basename alloc_ok path =
     (case path of
        None \<Rightarrow> strdup alloc_ok ''.''
      | Some p \<Rightarrow>
          if p = [] then strdup alloc_ok ''.''
          else
            (let len = uint_of_size (length p);
                 len = skip_slashes p len
             in if len = 0 then strdup alloc_ok ''/''
                else
                  (let len = skip_component p len
                   in if len > 0 then
                        (let s = drop len p;
                             len = uint_of_size (length s);
                             len = skip_slashes s len
                         in if \<not> alloc_ok then None else Some (take len s))
                      else strdup alloc_ok p)))"

text \<open>
  What stripping the trailing slashes of a string means, stated without the loop, to
  compare the result of \<open>ssh_dirname\<close> with.
\<close>

definition without_trailing_slashes :: "string \<Rightarrow> string" where
  "without_trailing_slashes d = rev (dropWhile (\<lambda>c. c = CHR ''/'') (rev d))"

section \<open>Properties of the list operations\<close>

subsection \<open>Chains\<close>

lemma chain_Cons:
  "chain h p (a # as) = (p = Some a \<and> (\<exists>n. h a = Some n \<and> chain h (iter_next n) as))"
  by (simp split: option.splits)

declare chain.simps(2) [simp del]
declare chain_Cons [simp]

lemma chain_ConsI:
  "p = Some a \<Longrightarrow> h a = Some n \<Longrightarrow> chain h (iter_next n) as \<Longrightarrow> chain h p (a # as)"
  by simp

lemma chain_dom: "chain h p as \<Longrightarrow> set as \<subseteq> dom h"
  by (induction as arbitrary: p) auto

lemma chain_upd: "a \<notin> set as \<Longrightarrow> chain (h(a := v)) p as = chain h p as"
  by (induction as arbitrary: p) auto

lemma chain_fun: "chain h p as \<Longrightarrow> chain h p bs \<Longrightarrow> as = bs"
proof (induction as arbitrary: p bs)
  case Nil
  then show ?case by (cases bs) auto
next
  case (Cons a as)
  then show ?case by (cases bs) auto
qed

lemma chain_suffix: "chain h p (as @ b # bs) \<Longrightarrow> chain h (Some b) (b # bs)"
  by (induction as arbitrary: p) auto

lemma chain_distinct: "chain h p as \<Longrightarrow> distinct as"
proof (induction as arbitrary: p)
  case Nil
  then show ?case by simp
next
  case (Cons a as)
  then obtain n where n: "h a = Some n" "chain h (iter_next n) as"
    by auto
  have "a \<notin> set as"
  proof
    assume "a \<in> set as"
    then obtain us vs where "as = us @ a # vs" by (auto simp: in_set_conv_decomp)
    with Cons.prems have "chain h (Some a) (a # vs)"
      using chain_suffix [of h p "a # us" a vs] by simp
    with Cons.prems have "a # as = a # vs" by (auto dest: chain_fun)
    with \<open>as = us @ a # vs\<close> show False by simp
  qed
  with n Cons.IH show ?case by simp
qed

lemma traverse_chain:
  "chain h p as \<Longrightarrow>
   ssh_list_traverse h p seen = Some (Inr (seen @ map (node_data h) as))"
proof (induction as arbitrary: p seen)
  case Nil
  then show ?case by (simp add: ssh_list_traverse.simps)
next
  case (Cons a as)
  then show ?case
    by (subst ssh_list_traverse.simps) (auto simp: node_data_def)
qed

lemma chain_last_next:
  "chain h p as \<Longrightarrow> as \<noteq> [] \<Longrightarrow> \<exists>n. h (last as) = Some n \<and> iter_next n = None"
  by (induction as arbitrary: p) auto

lemma chain_snoc:
  "chain h p as \<Longrightarrow> as \<noteq> [] \<Longrightarrow> h (last as) = Some m \<Longrightarrow> b \<notin> set as \<Longrightarrow>
   chain (h(b \<mapsto> \<lparr>iter_next = None, iter_data = d\<rparr>, last as \<mapsto> m\<lparr>iter_next := Some b\<rparr>))
     p (as @ [b])"
proof (induction as arbitrary: p)
  case Nil
  then show ?case by simp
next
  case (Cons a as)
  show ?case
  proof (cases "as = []")
    case True
    with Cons.prems show ?thesis by auto
  next
    case False
    from Cons.prems(1) have "a \<notin> set as" using chain_distinct by fastforce
    with False have "a \<noteq> last as" using last_in_set by metis
    with False Cons show ?thesis by auto
  qed
qed

lemma add_inv:
  assumes inv: "list_inv h l as" and fresh: "a \<notin> dom h"
  shows "\<exists>h' l'. ssh_list_add h l d (Some a) = Inr (SSH_OK, h', l') \<and>
           list_inv h' l' (as @ [a]) \<and> dom h' = insert a (dom h) \<and>
           map (node_data h') (as @ [a]) = map (node_data h) as @ [d]"
proof (cases "as = []")
  case True
  with inv fresh show ?thesis
    by (auto simp: list_inv_def ssh_list_add_def ssh_iterator_new_def node_data_def)
next
  case False
  from inv have ch: "chain h (list_root l) as" and di: "distinct as"
    and en: "list_end l = Some (last as)"
    using False by (auto simp: list_inv_def)
  from ch fresh have notin: "a \<notin> set as" using chain_dom by blast
  from chain_last_next [OF ch False] obtain m where m: "h (last as) = Some m" by blast
  have neq: "last as \<noteq> a" using notin False last_in_set by metis
  let ?h' = "h(a \<mapsto> \<lparr>iter_next = None, iter_data = d\<rparr>, last as \<mapsto> m\<lparr>iter_next := Some a\<rparr>)"
  let ?l' = "l\<lparr>list_end := Some a\<rparr>"
  have run: "ssh_list_add h l d (Some a) = Inr (SSH_OK, ?h', ?l')"
    using en m neq by (simp add: ssh_list_add_def ssh_iterator_new_def)
  have ch': "chain ?h' (list_root l) (as @ [a])"
    by (rule chain_snoc [OF ch False m notin])
  have root: "list_root l \<noteq> None" using ch False by (cases as) auto
  have inv': "list_inv ?h' ?l' (as @ [a])"
    using ch' di notin root by (simp add: list_inv_def)
  have dom': "dom ?h' = insert a (dom h)" using m by auto
  have data: "map (node_data ?h') (as @ [a]) = map (node_data h) as @ [d]"
    using notin neq m by (auto simp: node_data_def)
  from run inv' dom' data show ?thesis by blast
qed

lemma pop_inv:
  assumes inv: "list_inv h l (a # as)"
  shows "\<exists>l'. ssh_list_get_head h l = Inr (node_data h a, h(a := None), l') \<and>
           list_inv (h(a := None)) l' as \<and>
           map (node_data (h(a := None))) as = map (node_data h) as"
proof -
  from inv obtain n where root: "list_root l = Some a" and n: "h a = Some n"
    and ch: "chain h (iter_next n) as" and di: "a \<notin> set as" "distinct as"
    and en: "list_end l = Some (last (a # as))"
    by (auto simp: list_inv_def)
  have ch': "chain (h(a := None)) (iter_next n) as" using ch di by (simp add: chain_upd)
  have data: "map (node_data (h(a := None))) as = map (node_data h) as"
    using di by (auto simp: node_data_def)
  show ?thesis
  proof (cases "as = []")
    case True
    with root n en ch show ?thesis
      by (auto simp: ssh_list_get_head_def Let_def list_inv_def node_data_def)
  next
    case False
    then have "last as \<noteq> a" using di last_in_set by metis
    moreover have "iter_next n \<noteq> None" using ch False by (cases as) auto
    ultimately show ?thesis using root n en ch' di False data
      by (auto simp: ssh_list_get_head_def Let_def list_inv_def node_data_def)
  qed
qed

lemma pop_empty:
  "list_inv h l [] \<Longrightarrow> ssh_list_get_head h l = Inr (None, h, l)"
  by (simp add: list_inv_def ssh_list_get_head_def)

lemma scan_absent:
  "chain h p as \<Longrightarrow> (\<forall>a. iterator = Some a \<longrightarrow> a \<notin> set as) \<Longrightarrow>
   remove_scan h iterator prev p =
     Some (Inr (if as = [] then prev else Some (last as), None))"
proof (induction as arbitrary: p prev)
  case Nil
  then show ?case by (simp add: remove_scan.simps)
next
  case (Cons a as)
  from Cons.prems obtain n where n: "p = Some a" "h a = Some n" "chain h (iter_next n) as"
    by auto
  from Cons.prems have ne: "p \<noteq> iterator" using n by auto
  from Cons.prems have rest: "\<forall>b. iterator = Some b \<longrightarrow> b \<notin> set as" by auto
  have "remove_scan h iterator prev p = remove_scan h iterator p (iter_next n)"
    using n ne by (subst remove_scan.simps) simp
  also have "\<dots> = Some (Inr (if as = [] then p else Some (last as), None))"
    by (rule Cons.IH [OF n(3) rest])
  finally show ?case using n by simp
qed

lemma scan_found:
  "chain h p (us @ a # vs) \<Longrightarrow> a \<notin> set us \<Longrightarrow>
   remove_scan h (Some a) prev p =
     Some (Inr (if us = [] then prev else Some (last us), Some a))"
proof (induction us arbitrary: p prev)
  case Nil
  then show ?case by (subst remove_scan.simps) simp
next
  case (Cons u us)
  from Cons.prems obtain n where n: "p = Some u" "h u = Some n"
    "chain h (iter_next n) (us @ a # vs)" by auto
  from Cons.prems have ne: "u \<noteq> a" "a \<notin> set us" by auto
  have "remove_scan h (Some a) prev p = remove_scan h (Some a) p (iter_next n)"
    using n ne by (subst remove_scan.simps) simp
  also have "\<dots> = Some (Inr (if us = [] then p else Some (last us), Some a))"
    by (rule Cons.IH [OF n(3) ne(2)])
  finally show ?case using n by simp
qed

lemma chain_unlink:
  "chain h p (us @ a # vs) \<Longrightarrow> distinct (us @ a # vs) \<Longrightarrow> us \<noteq> [] \<Longrightarrow>
   h (last us) = Some m \<Longrightarrow> h a = Some n \<Longrightarrow>
   chain ((h(last us \<mapsto> m\<lparr>iter_next := iter_next n\<rparr>))(a := None)) p (us @ vs)"
proof (induction us arbitrary: p)
  case Nil
  then show ?case by simp
next
  case (Cons u us)
  let ?h' = "(h(last (u # us) \<mapsto> m\<lparr>iter_next := iter_next n\<rparr>))(a := None)"
  from Cons.prems(1) obtain k where k: "p = Some u" "h u = Some k"
    "chain h (iter_next k) (us @ a # vs)" by auto
  from Cons.prems(2) have ua: "u \<noteq> a" by auto
  show ?case
  proof (cases "us = []")
    case True
    with k Cons.prems(5) have "chain h (iter_next n) vs" by simp
    moreover from Cons.prems(2) have "u \<notin> set vs" "a \<notin> set vs" by auto
    ultimately have c: "chain ?h' (iter_next (m\<lparr>iter_next := iter_next n\<rparr>)) vs"
      using True by (simp add: chain_upd)
    have hu: "?h' u = Some (m\<lparr>iter_next := iter_next n\<rparr>)"
      using True ua by simp
    have "chain ?h' p (u # vs)" by (rule chain_ConsI [OF k(1) hu c])
    then show ?thesis using True by (simp only: append_Cons append_Nil)
  next
    case False
    from Cons.prems(2) False have ul: "u \<noteq> last us" by auto
    from Cons.prems(4) False have m: "h (last us) = Some m" by simp
    from Cons.prems(2) have di: "distinct (us @ a # vs)" by simp
    have eq: "last (u # us) = last us" using False by simp
    have "chain ((h(last us \<mapsto> m\<lparr>iter_next := iter_next n\<rparr>))(a := None))
            (iter_next k) (us @ vs)"
      by (rule Cons.IH [OF k(3) di False m Cons.prems(5)])
    then have c: "chain ?h' (iter_next k) (us @ vs)" by (simp only: eq)
    have hu: "?h' u = Some k" using False ua ul k by simp
    have "chain ?h' p (u # us @ vs)" by (rule chain_ConsI [OF k(1) hu c])
    then show ?thesis by (simp only: append_Cons)
  qed
qed

lemma remove_absent:
  assumes inv: "list_inv h l as" and out: "\<forall>a. iterator = Some a \<longrightarrow> a \<notin> set as"
  shows "ssh_list_remove h l iterator = Some (Inr (h, l))"
proof -
  from inv have "chain h (list_root l) as" by (simp add: list_inv_def)
  from scan_absent [OF this out] show ?thesis
    by (simp add: ssh_list_remove_def)
qed

lemma remove_head:
  assumes inv: "list_inv h l (a # vs)" and n: "h a = Some n"
  shows "ssh_list_remove h l (Some a) =
           Some (Inr (h(a := None),
             l\<lparr>list_root := iter_next n,
               list_end := (if vs = [] then None else list_end l)\<rparr>))"
    and "list_inv (h(a := None))
           (l\<lparr>list_root := iter_next n, list_end := (if vs = [] then None else list_end l)\<rparr>) vs"
proof -
  from inv n have root: "list_root l = Some a"
    and ch: "chain h (iter_next n) vs" and di: "a \<notin> set vs" "distinct vs"
    and en: "list_end l = Some (last (a # vs))"
    by (auto simp: list_inv_def)
  have scan: "remove_scan h (Some a) None (list_root l) = Some (Inr (None, Some a))"
    using root by (subst remove_scan.simps) simp
  have last_ne: "vs \<noteq> [] \<Longrightarrow> last vs \<noteq> a" using di last_in_set by metis
  show "ssh_list_remove h l (Some a) =
           Some (Inr (h(a := None),
             l\<lparr>list_root := iter_next n,
               list_end := (if vs = [] then None else list_end l)\<rparr>))"
    using scan n root en last_ne
    by (auto simp: ssh_list_remove_def remove_unlink_def Let_def)
  have ch': "chain (h(a := None)) (iter_next n) vs" using ch di by (simp add: chain_upd)
  have "vs \<noteq> [] \<Longrightarrow> iter_next n \<noteq> None" using ch by (cases vs) auto
  moreover have "vs = [] \<Longrightarrow> iter_next n = None" using ch by simp
  ultimately show "list_inv (h(a := None))
           (l\<lparr>list_root := iter_next n, list_end := (if vs = [] then None else list_end l)\<rparr>) vs"
    using ch' di en by (auto simp: list_inv_def)
qed

lemma remove_inner:
  assumes inv: "list_inv h l (us @ a # vs)" and ne: "us \<noteq> []"
    and n: "h a = Some n" and m: "h (last us) = Some m"
  shows "ssh_list_remove h l (Some a) =
           Some (Inr ((h(last us \<mapsto> m\<lparr>iter_next := iter_next n\<rparr>))(a := None),
             l\<lparr>list_end := (if vs = [] then Some (last us) else list_end l)\<rparr>))"
    and "list_inv ((h(last us \<mapsto> m\<lparr>iter_next := iter_next n\<rparr>))(a := None))
           (l\<lparr>list_end := (if vs = [] then Some (last us) else list_end l)\<rparr>) (us @ vs)"
proof -
  from inv have ch: "chain h (list_root l) (us @ a # vs)" and di: "distinct (us @ a # vs)"
    and en: "list_end l = Some (last (a # vs))"
    by (auto simp: list_inv_def)
  have a_us: "a \<notin> set us" using di by auto
  have scan: "remove_scan h (Some a) None (list_root l) = Some (Inr (Some (last us), Some a))"
    using scan_found [OF ch a_us] ne by simp
  have root: "list_root l = Some (hd us)" using ch ne by (cases us) auto
  have hd_ne: "hd us \<noteq> a" using a_us ne hd_in_set by metis
  have last_ne: "last us \<noteq> a" using a_us ne last_in_set by metis
  have vs_ne: "vs \<noteq> [] \<Longrightarrow> last vs \<noteq> a" using di last_in_set by fastforce
  have en_eq: "(list_end l = Some a) = (vs = [])" using en vs_ne by auto
  have "remove_unlink h l (Some a) (Some (last us)) a =
          Inr ((h(last us \<mapsto> m\<lparr>iter_next := iter_next n\<rparr>))(a := None),
             l\<lparr>list_end := (if vs = [] then Some (last us) else list_end l)\<rparr>)"
    by (simp add: remove_unlink_def n m root hd_ne en_eq)
  then show "ssh_list_remove h l (Some a) =
           Some (Inr ((h(last us \<mapsto> m\<lparr>iter_next := iter_next n\<rparr>))(a := None),
             l\<lparr>list_end := (if vs = [] then Some (last us) else list_end l)\<rparr>))"
    by (simp add: ssh_list_remove_def scan)
  have ch': "chain ((h(last us \<mapsto> m\<lparr>iter_next := iter_next n\<rparr>))(a := None)) (list_root l) (us @ vs)"
    by (rule chain_unlink [OF ch di ne m n])
  show "list_inv ((h(last us \<mapsto> m\<lparr>iter_next := iter_next n\<rparr>))(a := None))
           (l\<lparr>list_end := (if vs = [] then Some (last us) else list_end l)\<rparr>) (us @ vs)"
    using ch' di root en ne by (auto simp: list_inv_def)
qed

lemma remove_inv:
  assumes inv: "list_inv h l as"
  shows "\<exists>h' l'. ssh_list_remove h l iterator = Some (Inr (h', l')) \<and>
           list_inv h' l' (case iterator of None \<Rightarrow> as | Some a \<Rightarrow> remove1 a as)"
proof (cases "\<exists>a. iterator = Some a \<and> a \<in> set as")
  case False
  then have out: "\<forall>a. iterator = Some a \<longrightarrow> a \<notin> set as" by blast
  then have same: "(case iterator of None \<Rightarrow> as | Some a \<Rightarrow> remove1 a as) = as"
    by (cases iterator) (simp_all add: remove1_idem)
  show ?thesis
    unfolding same
  proof (intro exI conjI)
    show "ssh_list_remove h l iterator = Some (Inr (h, l))"
      by (rule remove_absent [OF inv out])
    show "list_inv h l as" by (rule inv)
  qed
next
  case True
  then obtain a where a: "iterator = Some a" "a \<in> set as" by blast
  from split_list_first [OF a(2)]
  obtain us vs where split: "as = us @ a # vs" "a \<notin> set us" by blast
  from inv have ch: "chain h (list_root l) as" by (simp add: list_inv_def)
  from chain_dom [OF ch] a obtain n where n: "h a = Some n" by auto
  have rem: "(case iterator of None \<Rightarrow> as | Some a \<Rightarrow> remove1 a as) = us @ vs"
    using split a by (simp add: remove1_append)
  from inv split have inv': "list_inv h l (us @ a # vs)" by simp
  show ?thesis
  proof (cases "us = []")
    case True
    from inv' True have "list_inv h l (a # vs)" by simp
    from remove_head [OF this n] show ?thesis
      unfolding rem unfolding a(1) True append_Nil by (intro exI conjI)
  next
    case False
    then have "last us \<in> set as" using split by simp
    with chain_dom [OF ch] obtain m where m: "h (last us) = Some m" by auto
    from remove_inner [OF inv' False n m] show ?thesis
      unfolding rem unfolding a(1) by (intro exI conjI)
  qed
qed

lemma add_holds:
  assumes "list_holds h l as ds" and "a \<notin> dom h"
  shows "\<exists>h' l'. ssh_list_add h l d (Some a) = Inr (SSH_OK, h', l') \<and>
           list_holds h' l' (as @ [a]) (ds @ [d]) \<and> dom h' = insert a (dom h)"
proof -
  from assms have inv: "list_inv h l as" and ds: "map (node_data h) as = ds"
    by (simp_all add: list_holds_def)
  from add_inv [OF inv assms(2), of d] ds show ?thesis
    unfolding list_holds_def by metis
qed

lemma pop_holds:
  assumes "list_holds h l (a # as) (d # ds)"
  shows "\<exists>h' l'. ssh_list_get_head h l = Inr (d, h', l') \<and> list_holds h' l' as ds"
proof -
  from assms have inv: "list_inv h l (a # as)" and d: "node_data h a = d"
    and ds: "map (node_data h) as = ds"
    by (simp_all add: list_holds_def)
  from pop_inv [OF inv] d ds show ?thesis
    unfolding list_holds_def by metis
qed

lemma traverse_holds:
  "list_holds h l as ds \<Longrightarrow>
   ssh_list_traverse h (ssh_list_get_iterator l) [] = Some (Inr ds)"
  using traverse_chain [of h "list_root l" as "[]"]
  by (simp add: list_holds_def list_inv_def ssh_list_get_iterator_def)

lemma add_all_holds:
  "list_holds h l as ds \<Longrightarrow> distinct (map fst xs) \<Longrightarrow> set (map fst xs) \<inter> dom h = {} \<Longrightarrow>
   \<exists>h' l'. ssh_list_add_all h l xs = Inr (replicate (length xs) SSH_OK, h', l') \<and>
     list_holds h' l' (as @ map fst xs) (ds @ map snd xs)"
proof (induction xs arbitrary: h l as ds)
  case Nil
  then show ?case by simp
next
  case (Cons x xs)
  obtain a d where x: "x = (a, d)" by (cases x)
  from Cons.prems x have fresh: "a \<notin> dom h" by auto
  from add_holds [OF Cons.prems(1) fresh, of d] obtain h1 l1 where
    step: "ssh_list_add h l d (Some a) = Inr (SSH_OK, h1, l1)"
    and holds1: "list_holds h1 l1 (as @ [a]) (ds @ [d])"
    and dom1: "dom h1 = insert a (dom h)" by blast
  from Cons.prems x have di: "distinct (map fst xs)" by simp
  from Cons.prems x dom1 have disj: "set (map fst xs) \<inter> dom h1 = {}" by auto
  from Cons.IH [OF holds1 di disj] obtain h2 l2 where
    rest: "ssh_list_add_all h1 l1 xs = Inr (replicate (length xs) SSH_OK, h2, l2)"
    and holds2: "list_holds h2 l2 ((as @ [a]) @ map fst xs) ((ds @ [d]) @ map snd xs)"
    by blast
  have "ssh_list_add_all h l (x # xs) = Inr (replicate (length (x # xs)) SSH_OK, h2, l2)"
    using x step rest by simp
  moreover have "list_holds h2 l2 (as @ map fst (x # xs)) (ds @ map snd (x # xs))"
    using holds2 x by simp
  ultimately show ?case by blast
qed

lemma new_holds: "ssh_list_new True = Some l \<Longrightarrow> list_holds h l [] []"
  by (auto simp: ssh_list_new_def list_holds_def list_inv_def)

lemma add_run_empty:
  assumes inv: "list_inv h l []"
  shows "ssh_list_add h l d (Some a) =
           Inr (SSH_OK, h(a \<mapsto> \<lparr>iter_next = None, iter_data = d\<rparr>),
                l\<lparr>list_root := Some a, list_end := Some a\<rparr>)"
  using inv by (simp add: list_inv_def ssh_list_add_def ssh_iterator_new_def)

lemma add_run_nonempty:
  assumes inv: "list_inv h l as" and ne: "as \<noteq> []" and fresh: "a \<notin> dom h"
    and m: "h (last as) = Some m"
  shows "ssh_list_add h l d (Some a) =
           Inr (SSH_OK,
                h(a \<mapsto> \<lparr>iter_next = None, iter_data = d\<rparr>,
                  last as \<mapsto> m\<lparr>iter_next := Some a\<rparr>),
                l\<lparr>list_end := Some a\<rparr>)"
proof -
  from inv ne have en: "list_end l = Some (last as)" by (simp add: list_inv_def)
  from fresh m have "last as \<noteq> a" by auto
  with en m show ?thesis by (simp add: ssh_list_add_def ssh_iterator_new_def)
qed

lemma add_remove_same:
  assumes inv: "list_inv h l as" and fresh: "a \<notin> dom h"
  shows "\<exists>h1 l1. ssh_list_add h l d (Some a) = Inr (SSH_OK, h1, l1) \<and>
           ssh_list_remove h1 l1 (Some a) = Some (Inr (h, l))"
proof (cases "as = []")
  case True
  let ?N = "\<lparr>iter_next = None, iter_data = d\<rparr>"
  let ?h1 = "h(a \<mapsto> ?N)"
  let ?l1 = "l\<lparr>list_root := Some a, list_end := Some a\<rparr>"
  from inv True have e: "list_inv h l []" by simp
  have run: "ssh_list_add h l d (Some a) = Inr (SSH_OK, ?h1, ?l1)"
    by (rule add_run_empty [OF e])
  from e have l: "list_root l = None" "list_end l = None" by (simp_all add: list_inv_def)
  have inv1: "list_inv ?h1 ?l1 [a]" by (simp add: list_inv_def)
  have n: "?h1 a = Some ?N" by simp
  have h: "h(a := None) = h" using fresh by (auto simp: fun_upd_idem)
  have "ssh_list_remove ?h1 ?l1 (Some a) = Some (Inr (h, l))"
    using remove_head(1) [OF inv1 n] l by (simp add: h del: fun_upd_apply)
  with run show ?thesis by blast
next
  case False
  let ?N = "\<lparr>iter_next = None, iter_data = d\<rparr>"
  from inv have ch: "chain h (list_root l) as" by (simp add: list_inv_def)
  from chain_last_next [OF ch False] obtain m where
    m: "h (last as) = Some m" "iter_next m = None" by blast
  let ?M = "m\<lparr>iter_next := Some a\<rparr>"
  let ?h1 = "h(a \<mapsto> ?N, last as \<mapsto> ?M)"
  let ?l1 = "l\<lparr>list_end := Some a\<rparr>"
  have run: "ssh_list_add h l d (Some a) = Inr (SSH_OK, ?h1, ?l1)"
    by (rule add_run_nonempty [OF inv False fresh m(1)])
  from add_inv [OF inv fresh, of d] run have inv1: "list_inv ?h1 ?l1 (as @ [a])" by auto
  from fresh m have neq: "last as \<noteq> a" by auto
  have n: "?h1 a = Some ?N" using neq by simp
  have m1: "?h1 (last as) = Some ?M" by simp
  have h: "(?h1(last as \<mapsto> ?M\<lparr>iter_next := iter_next ?N\<rparr>))(a := None) = h"
  proof (rule ext)
    fix x
    show "((?h1(last as \<mapsto> ?M\<lparr>iter_next := iter_next ?N\<rparr>))(a := None)) x = h x"
      using fresh m by (auto simp: domIff)
  qed
  have l: "?l1\<lparr>list_end := Some (last as)\<rparr> = l"
    using inv False by (simp add: list_inv_def)
  have "ssh_list_remove ?h1 ?l1 (Some a) = Some (Inr (h, l))"
    using remove_inner(1) [OF inv1 False n m1] by (simp only: h l if_True simp_thms)
  with run show ?thesis by blast
qed

section \<open>Properties of \<open>ntohll\<close>\<close>

lemma bit_ntohl:
  "bit (ntohl x) n =
     (if n < 8 then bit x (n + 24)
      else if n < 16 then bit x (n + 8)
      else if n < 24 then bit x (n - 8)
      else if n < 32 then bit x (n - 24)
      else False)"
  unfolding ntohl_def
  by (simp add: bit_simps) (auto simp: add.commute)

lemma low_mask: "(a :: 64 word) AND 0xffffffff = take_bit 32 a"
proof -
  have "(0xffffffff :: 64 word) = mask 32" by (simp add: mask_eq_exp_minus_1)
  then show ?thesis by (simp add: take_bit_eq_mask)
qed

lemma bit_ntohll:
  "bit (ntohll False a) n =
     (if n < 8 then bit a (n + 56)
      else if n < 16 then bit a (n + 40)
      else if n < 24 then bit a (n + 24)
      else if n < 32 then bit a (n + 8)
      else if n < 40 then bit a (n - 8)
      else if n < 48 then bit a (n - 24)
      else if n < 56 then bit a (n - 40)
      else if n < 64 then bit a (n - 56)
      else False)"
  unfolding ntohll_def Let_def low_mask
  by (simp add: bit_simps bit_ntohl) (auto simp: add.commute)

lemma ntohll_ntohll: "ntohll False (ntohll False a) = a"
proof (rule bit_eqI)
  fix n
  assume "possible_bit TYPE(64 word) n"
  then have "n < 64" by (simp add: possible_bit_def)
  then consider "n < 8" | "8 \<le> n" "n < 16" | "16 \<le> n" "n < 24" | "24 \<le> n" "n < 32"
    | "32 \<le> n" "n < 40" | "40 \<le> n" "n < 48" | "48 \<le> n" "n < 56" | "56 \<le> n" "n < 64"
    by linarith
  then show "bit (ntohll False (ntohll False a)) n = bit a n"
    by cases (auto simp: bit_ntohll)
qed

lemma ntohll_bytes:
  "ntohll False a =
     push_bit 56 (take_bit 8 a) OR
     push_bit 48 (take_bit 8 (drop_bit 8 a)) OR
     push_bit 40 (take_bit 8 (drop_bit 16 a)) OR
     push_bit 32 (take_bit 8 (drop_bit 24 a)) OR
     push_bit 24 (take_bit 8 (drop_bit 32 a)) OR
     push_bit 16 (take_bit 8 (drop_bit 40 a)) OR
     push_bit 8 (take_bit 8 (drop_bit 48 a)) OR
     take_bit 8 (drop_bit 56 a)"
  by (rule bit_eqI) (auto simp: bit_ntohll bit_simps add.commute)

section \<open>Properties of the path functions\<close>

lemma skip_slashes_numeral [simp]:
  "skip_slashes path (numeral k) =
     (if path ! pred_numeral k = CHR ''/'' then skip_slashes path (pred_numeral k)
      else numeral k)"
  by (simp add: numeral_eq_Suc)

lemma skip_component_numeral [simp]:
  "skip_component path (numeral k) =
     (if path ! pred_numeral k \<noteq> CHR ''/'' then skip_component path (pred_numeral k)
      else numeral k)"
  by (simp add: numeral_eq_Suc)

lemma uint_of_size_id: "n < 2 ^ 32 \<Longrightarrow> uint_of_size n = n"
  by (simp add: uint_of_size_def)

lemma skip_slashes_le: "skip_slashes p n \<le> n"
  by (induction n) auto

lemma skip_component_le: "skip_component p n \<le> n"
  by (induction n) auto

lemma skip_slashes_append: "n \<le> length xs \<Longrightarrow> skip_slashes (xs @ ys) n = skip_slashes xs n"
  by (induction n) (auto simp: nth_append)

lemma skip_component_append:
  "n \<le> length xs \<Longrightarrow> skip_component (xs @ ys) n = skip_component xs n"
  by (induction n) (auto simp: nth_append)

lemma skip_slashes_replicate:
  "skip_slashes (xs @ replicate k CHR ''/'' @ ys) (length xs + k) = skip_slashes xs (length xs)"
proof (induction k)
  case 0
  then show ?case by (simp add: skip_slashes_append)
next
  case (Suc k)
  have "(xs @ replicate (Suc k) CHR ''/'' @ ys) ! (length xs + k) = CHR ''/''"
    by (simp add: nth_append replicate_append_same [symmetric] del: replicate_Suc)
  moreover have "skip_slashes (xs @ replicate (Suc k) CHR ''/'' @ ys) (length xs + k) =
      skip_slashes (xs @ replicate k CHR ''/'' @ ys) (length xs + k)"
  proof -
    have "xs @ replicate (Suc k) CHR ''/'' @ ys =
          (xs @ replicate k CHR ''/'') @ (CHR ''/'' # ys)"
      by (simp add: replicate_append_same)
    moreover have "xs @ replicate k CHR ''/'' @ ys = (xs @ replicate k CHR ''/'') @ ys"
      by simp
    ultimately show ?thesis
      by (simp only: skip_slashes_append [of "length xs + k" "xs @ replicate k CHR ''/''"]
            length_append length_replicate order_refl)
  qed
  ultimately show ?case using Suc.IH by simp
qed

lemma skip_component_tail:
  "CHR ''/'' \<notin> set b \<Longrightarrow>
   skip_component (xs @ b) (length xs + length b) = skip_component xs (length xs)"
proof (induction b rule: rev_induct)
  case Nil
  then show ?case by simp
next
  case (snoc c b)
  from snoc.prems have c: "c \<noteq> CHR ''/''" and b: "CHR ''/'' \<notin> set b" by auto
  have "skip_component (xs @ b @ [c]) (length xs + length b) =
        skip_component (xs @ b) (length xs + length b)"
    using skip_component_append [of "length xs + length b" "xs @ b" "[c]"] by simp
  moreover have "(xs @ b @ [c]) ! (length xs + length b) = c"
    by (simp add: nth_append)
  ultimately show ?case using snoc.IH [OF b] c by simp
qed

lemma skip_slashes_snoc:
  "skip_slashes (p @ [c]) (Suc (length p)) =
     (if c = CHR ''/'' then skip_slashes p (length p) else Suc (length p))"
  by (simp add: skip_slashes_append)

lemma skip_slashes_zero_iff:
  "skip_slashes p (length p) = 0 \<longleftrightarrow> (\<forall>c \<in> set p. c = CHR ''/'')"
proof (induction p rule: rev_induct)
  case Nil
  then show ?case by simp
next
  case (snoc c p)
  show ?case
  proof (cases "c = CHR ''/''")
    case True
    with snoc skip_slashes_snoc [of p c] show ?thesis by simp
  next
    case False
    with skip_slashes_snoc [of p c] show ?thesis by auto
  qed
qed

lemma skip_slashes_last:
  "p \<noteq> [] \<Longrightarrow> last p \<noteq> CHR ''/'' \<Longrightarrow> skip_slashes p (length p) = length p"
proof (cases p rule: rev_cases)
  case Nil
  assume "p \<noteq> []"
  with Nil show ?thesis by simp
next
  case (snoc q c)
  assume "last p \<noteq> CHR ''/''"
  with snoc skip_slashes_snoc [of q c] show ?thesis by simp
qed

lemma skip_component_slash:
  "skip_component (xs @ [CHR ''/'']) (Suc (length xs)) = Suc (length xs)"
  by simp

lemma take_skip_slashes:
  "take (skip_slashes d (length d)) d = without_trailing_slashes d"
proof (induction d rule: rev_induct)
  case Nil
  then show ?case by (simp add: without_trailing_slashes_def)
next
  case (snoc c d)
  show ?case
  proof (cases "c = CHR ''/''")
    case True
    have "skip_slashes d (length d) \<le> length d" by (rule skip_slashes_le)
    with True snoc skip_slashes_snoc [of d c] show ?thesis
      by (simp add: without_trailing_slashes_def)
  next
    case False
    with skip_slashes_snoc [of d c] show ?thesis
      by (simp add: without_trailing_slashes_def)
  qed
qed

lemma ssh_dirname_nonempty:
  "p \<noteq> [] \<Longrightarrow>
   ssh_dirname ok (Some p) =
     (if skip_slashes p (uint_of_size (length p)) = 0 then strdup ok ''/''
      else if skip_component p (skip_slashes p (uint_of_size (length p))) = 0
        then strdup ok ''.''
      else if skip_component p (skip_slashes p (uint_of_size (length p))) = 1
        then strdup ok ''/''
      else if \<not> ok then None
      else Some (take (skip_slashes p
                   (skip_component p (skip_slashes p (uint_of_size (length p))))) p))"
  by (simp add: ssh_dirname_def Let_def)

lemma skip_component_ends_slash:
  "p \<noteq> [] \<Longrightarrow> last p = CHR ''/'' \<Longrightarrow> skip_component p (length p) = length p"
  by (cases p rule: rev_cases) simp_all

lemma dirname_component:
  assumes d: "d \<noteq> []" and b: "CHR ''/'' \<notin> set b" "b \<noteq> []" and m: "0 < m"
    and len: "length (d @ replicate m CHR ''/'' @ b) < 2 ^ 32"
  shows "ssh_dirname True (Some (d @ replicate m CHR ''/'' @ b)) =
           Some (without_trailing_slashes d)"
proof -
  let ?q = "d @ replicate m CHR ''/''"
  let ?p = "d @ replicate m CHR ''/'' @ b"
  have ne: "?p \<noteq> []" using d by simp
  have "last ?p = last b" using b by simp
  moreover have "last b \<in> set b" using b by simp
  ultimately have "last ?p \<noteq> CHR ''/''" using b by metis
  from skip_slashes_last [OF ne this]
  have s1: "skip_slashes ?p (length ?p) = length ?p" .
  have pq: "?p = ?q @ b" by simp
  have lpq: "length ?p = length ?q + length b" by simp
  have "?q \<noteq> []" using d by simp
  moreover have "last ?q = CHR ''/''" using m by simp
  ultimately have q: "skip_component ?q (length ?q) = length ?q"
    by (rule skip_component_ends_slash)
  have "skip_component ?p (length ?p) = skip_component (?q @ b) (length ?q + length b)"
    by (simp only: pq [symmetric] lpq [symmetric])
  also have "\<dots> = skip_component ?q (length ?q)"
    by (rule skip_component_tail [OF b(1)])
  also have "\<dots> = length d + m" using q by simp
  finally have s2: "skip_component ?p (length ?p) = length d + m" .
  have s3: "skip_slashes ?p (length d + m) = skip_slashes d (length d)"
    by (rule skip_slashes_replicate)
  have le: "skip_slashes d (length d) \<le> length d" by (rule skip_slashes_le)
  have two: "length d + m \<noteq> 1" "length d + m \<noteq> 0" using d m by (cases d; simp)+
  have t: "take (skip_slashes d (length d)) ?p = take (skip_slashes d (length d)) d"
    using le by simp
  have l: "uint_of_size (length ?p) = length ?p" by (rule uint_of_size_id [OF len])
  have "ssh_dirname True (Some ?p) = Some (take (skip_slashes d (length d)) ?p)"
    unfolding ssh_dirname_nonempty [OF ne] l s1 s2 s3 using d two by simp
  then show ?thesis by (simp only: t take_skip_slashes)
qed

lemma dirname_trailing:
  assumes d: "\<exists>c \<in> set d. c \<noteq> CHR ''/''"
    and len: "length (d @ replicate m CHR ''/'') < 2 ^ 32"
  shows "ssh_dirname ok (Some (d @ replicate m CHR ''/'')) = ssh_dirname ok (Some d)"
proof -
  let ?p = "d @ replicate m CHR ''/''"
  let ?k = "skip_slashes d (length d)"
  let ?j = "skip_component d ?k"
  let ?i = "skip_slashes d ?j"
  from d have ne: "d \<noteq> []" by auto
  from len have len': "length d < 2 ^ 32" by simp
  have s1: "skip_slashes ?p (length d + m) = ?k"
    using skip_slashes_replicate [of d m "[]"] by simp
  have k: "?k \<le> length d" by (rule skip_slashes_le)
  have j: "?j \<le> length d" using skip_component_le [of d ?k] k by simp
  have i: "?i \<le> length d" using skip_slashes_le [of d ?j] j by simp
  have s2: "skip_component ?p ?k = ?j" by (rule skip_component_append [OF k])
  have s3: "skip_slashes ?p ?j = ?i" by (rule skip_slashes_append [OF j])
  have t: "take ?i ?p = take ?i d" using i by simp
  have ne': "?p \<noteq> []" using ne by simp
  have l: "uint_of_size (length ?p) = length d + m"
    using len by (simp add: uint_of_size_id)
  have l': "uint_of_size (length d) = length d" by (rule uint_of_size_id [OF len'])
  show ?thesis
    unfolding ssh_dirname_nonempty [OF ne'] ssh_dirname_nonempty [OF ne] l l' s1 s2 s3 t
    by (rule refl)
qed

lemma dirname_wrapped:
  assumes "length p = 2 ^ 32"
  shows "ssh_dirname ok (Some p) = strdup ok ''/''"
proof -
  from assms have ne: "p \<noteq> []" by auto
  have "uint_of_size (length p) = 0" using assms by (simp add: uint_of_size_def)
  then show ?thesis unfolding ssh_dirname_nonempty [OF ne] by simp
qed

lemma without_trailing_slashes_id:
  "d \<noteq> [] \<Longrightarrow> last d \<noteq> CHR ''/'' \<Longrightarrow> without_trailing_slashes d = d"
  using skip_slashes_last [of d] take_skip_slashes [of d] by simp

lemma dirname_wrap_example:
  assumes n: "n + 4 = 2 ^ 32"
  shows "replicate n CHR ''a'' \<noteq> [] \<and>
         CHR ''/'' \<notin> set (replicate n CHR ''a'') \<and>
         CHR ''/'' \<notin> set ''b'' \<and>
         ssh_dirname True (Some (replicate n CHR ''a'' @ ''///'' @ ''b'')) = Some ''/'' \<and>
         ssh_dirname True (Some (replicate n CHR ''a'' @ ''/'' @ ''b'')) =
           Some (replicate n CHR ''a'') \<and>
         ssh_dirname True (Some (replicate n CHR ''a'' @ ''///'' @ ''b'')) \<noteq>
           ssh_dirname True (Some (replicate n CHR ''a'' @ ''/'' @ ''b''))"
proof -
  let ?d = "replicate n CHR ''a''"
  from n have pos: "n \<noteq> 0" by auto
  then have ne: "?d \<noteq> []" by simp
  have noslash: "CHR ''/'' \<notin> set ?d" by simp
  have b: "CHR ''/'' \<notin> set ''b''" "''b'' \<noteq> []" by simp_all
  have "length (?d @ ''///'' @ ''b'') = 2 ^ 32" using n by simp
  from dirname_wrapped [OF this, of True]
  have many: "ssh_dirname True (Some (?d @ ''///'' @ ''b'')) = Some ''/''"
    by (simp add: strdup_def)
  have len1: "length (?d @ replicate (Suc 0) CHR ''/'' @ ''b'') < 2 ^ 32" using n by simp
  have "last ?d \<noteq> CHR ''/''" using pos by simp
  from without_trailing_slashes_id [OF ne this]
  have w: "without_trailing_slashes ?d = ?d" .
  have "ssh_dirname True (Some (?d @ replicate (Suc 0) CHR ''/'' @ ''b'')) =
      Some (without_trailing_slashes ?d)"
    by (rule dirname_component [OF ne b _ len1]) simp
  then have one: "ssh_dirname True (Some (?d @ ''/'' @ ''b'')) = Some ?d"
    by (simp add: w)
  have "?d \<noteq> ''/''" using pos by (cases n) simp_all
  with many one have diff:
    "ssh_dirname True (Some (?d @ ''///'' @ ''b'')) \<noteq>
     ssh_dirname True (Some (?d @ ''/'' @ ''b''))"
    by simp
  from ne noslash b(1) many one diff show ?thesis by (intro conjI)
qed

section \<open>The claims about the list\<close>

text \<open>
  C1. For every sequence of successful \<open>ssh_list_add\<close> calls on a list created by
  \<open>ssh_list_new\<close>, walking from \<open>ssh_list_get_iterator\<close> along the \<open>next\<close> links returns
  and yields exactly the added data references, in the order in which they were added.
  The calls succeed because every \<open>malloc\<close> delivers a block that is not live yet; the
  store may hold other nodes before the first call.
\<close>

theorem add_order_traversal:
  assumes "ssh_list_new True = Some l0"
    and "distinct (map fst xs)" and "set (map fst xs) \<inter> dom h0 = {}"
  shows "\<exists>h l. ssh_list_add_all h0 l0 xs = Inr (replicate (length xs) SSH_OK, h, l) \<and>
           ssh_list_traverse h (ssh_list_get_iterator l) [] = Some (Inr (map snd xs))"
proof -
  from add_all_holds [OF new_holds [OF assms(1)] assms(2) assms(3)] obtain h l where
    run: "ssh_list_add_all h0 l0 xs = Inr (replicate (length xs) SSH_OK, h, l)"
    and holds: "list_holds h l ([] @ map fst xs) ([] @ map snd xs)" by blast
  from holds have "list_holds h l (map fst xs) (map snd xs)" by simp
  from traverse_holds [OF this] run show ?thesis by blast
qed

theorem add_order_traversal_witness:
  "ssh_list_new True = Some \<lparr>list_root = None, list_end = None\<rparr> \<and>
   distinct (map fst [(4 :: addr, Some (10 :: addr)), (5, None), (6, Some 30)]) \<and>
   set (map fst [(4 :: addr, Some (10 :: addr)), (5, None), (6, Some 30)]) \<inter>
     dom example_heap = {} \<and>
   (\<exists>h l. ssh_list_add_all example_heap \<lparr>list_root = None, list_end = None\<rparr>
             [(4, Some 10), (5, None), (6, Some 30)] = Inr ([SSH_OK, SSH_OK, SSH_OK], h, l) \<and>
          ssh_list_traverse h (ssh_list_get_iterator l) [] =
            Some (Inr [Some 10, None, Some 30]))"
proof -
  have new: "ssh_list_new True = Some \<lparr>list_root = None, list_end = None\<rparr>"
    by (simp add: ssh_list_new_def)
  have di: "distinct (map fst [(4 :: addr, Some (10 :: addr)), (5, None), (6, Some 30)])"
    by simp
  have fresh: "set (map fst [(4 :: addr, Some (10 :: addr)), (5, None), (6, Some 30)]) \<inter>
      dom example_heap = {}"
    by (simp add: example_heap_def)
  have "replicate (length [(4 :: addr, Some (10 :: addr)), (5, None), (6, Some 30)]) SSH_OK =
      [SSH_OK, SSH_OK, SSH_OK]"
    by simp
  moreover have "map snd [(4 :: addr, Some (10 :: addr)), (5, None), (6, Some 30)] =
      [Some 10, None, Some 30]"
    by simp
  ultimately have run:
    "\<exists>h l. ssh_list_add_all example_heap \<lparr>list_root = None, list_end = None\<rparr>
             [(4, Some 10), (5, None), (6, Some 30)] = Inr ([SSH_OK, SSH_OK, SSH_OK], h, l) \<and>
          ssh_list_traverse h (ssh_list_get_iterator l) [] =
            Some (Inr [Some 10, None, Some 30])"
    using add_order_traversal [OF new di fresh] by (simp only:)
  from new di fresh run show ?thesis by (intro conjI)
qed

text \<open>
  C3. After \<open>add(a); add(b); add(c)\<close> on a new list, \<open>_ssh_list_get_head\<close> returns
  \<open>a\<close>, then \<open>b\<close>, then \<open>c\<close>, then NULL, and after each call the remaining elements are
  still in their order: the walk yields \<open>[b, c]\<close>, then \<open>[c]\<close>, then nothing.
\<close>

theorem get_head_fifo:
  assumes new: "ssh_list_new True = Some l0"
    and fresh: "distinct [p1, p2, p3]" "{p1, p2, p3} \<inter> dom h0 = {}"
  shows "\<exists>h1 l1 h2 l2 h3 l3 h4 l4 h5 l5 h6 l6.
           ssh_list_add h0 l0 a (Some p1) = Inr (SSH_OK, h1, l1) \<and>
           ssh_list_add h1 l1 b (Some p2) = Inr (SSH_OK, h2, l2) \<and>
           ssh_list_add h2 l2 c (Some p3) = Inr (SSH_OK, h3, l3) \<and>
           ssh_list_get_head h3 l3 = Inr (a, h4, l4) \<and>
           ssh_list_traverse h4 (ssh_list_get_iterator l4) [] = Some (Inr [b, c]) \<and>
           ssh_list_get_head h4 l4 = Inr (b, h5, l5) \<and>
           ssh_list_traverse h5 (ssh_list_get_iterator l5) [] = Some (Inr [c]) \<and>
           ssh_list_get_head h5 l5 = Inr (c, h6, l6) \<and>
           ssh_list_traverse h6 (ssh_list_get_iterator l6) [] = Some (Inr []) \<and>
           ssh_list_get_head h6 l6 = Inr (None, h6, l6)"
proof -
  have s0: "list_holds h0 l0 [] []" by (rule new_holds [OF new])
  from fresh have f1: "p1 \<notin> dom h0" by simp
  from add_holds [OF s0 f1, of a] obtain h1 l1 where
    a1: "ssh_list_add h0 l0 a (Some p1) = Inr (SSH_OK, h1, l1)"
    and s1: "list_holds h1 l1 ([] @ [p1]) ([] @ [a])" and d1: "dom h1 = insert p1 (dom h0)"
    by blast
  from fresh d1 have f2: "p2 \<notin> dom h1" by simp
  from add_holds [OF s1 f2, of b] obtain h2 l2 where
    a2: "ssh_list_add h1 l1 b (Some p2) = Inr (SSH_OK, h2, l2)"
    and s2: "list_holds h2 l2 (([] @ [p1]) @ [p2]) (([] @ [a]) @ [b])"
    and d2: "dom h2 = insert p2 (dom h1)"
    by blast
  from fresh d1 d2 have f3: "p3 \<notin> dom h2" by simp
  from add_holds [OF s2 f3, of c] obtain h3 l3 where
    a3: "ssh_list_add h2 l2 c (Some p3) = Inr (SSH_OK, h3, l3)"
    and s3: "list_holds h3 l3 ((([] @ [p1]) @ [p2]) @ [p3]) ((([] @ [a]) @ [b]) @ [c])"
    by blast
  from s3 have s3': "list_holds h3 l3 (p1 # [p2, p3]) (a # [b, c])" by simp
  from pop_holds [OF s3'] obtain h4 l4 where
    g1: "ssh_list_get_head h3 l3 = Inr (a, h4, l4)"
    and s4: "list_holds h4 l4 (p2 # [p3]) (b # [c])" by blast
  from pop_holds [OF s4] obtain h5 l5 where
    g2: "ssh_list_get_head h4 l4 = Inr (b, h5, l5)"
    and s5: "list_holds h5 l5 (p3 # []) (c # [])" by blast
  from pop_holds [OF s5] obtain h6 l6 where
    g3: "ssh_list_get_head h5 l5 = Inr (c, h6, l6)"
    and s6: "list_holds h6 l6 [] []" by blast
  from s6 have g4: "ssh_list_get_head h6 l6 = Inr (None, h6, l6)"
    by (simp add: list_holds_def pop_empty)
  note t4 = traverse_holds [OF s4] and t5 = traverse_holds [OF s5]
    and t6 = traverse_holds [OF s6]
  from a1 a2 a3 g1 t4 g2 t5 g3 t6 g4 show ?thesis by blast
qed

theorem get_head_fifo_witness:
  "ssh_list_new True = Some \<lparr>list_root = None, list_end = None\<rparr> \<and>
   distinct [4, 5, 6 :: addr] \<and> {4, 5, 6} \<inter> dom example_heap = {} \<and>
   (\<exists>h1 l1 h2 l2 h3 l3 h4 l4 h5 l5 h6 l6.
      ssh_list_add example_heap \<lparr>list_root = None, list_end = None\<rparr> (Some 40) (Some 4) =
        Inr (SSH_OK, h1, l1) \<and>
      ssh_list_add h1 l1 (Some 50) (Some 5) = Inr (SSH_OK, h2, l2) \<and>
      ssh_list_add h2 l2 (Some 60) (Some 6) = Inr (SSH_OK, h3, l3) \<and>
      ssh_list_get_head h3 l3 = Inr (Some 40, h4, l4) \<and>
      ssh_list_traverse h4 (ssh_list_get_iterator l4) [] = Some (Inr [Some 50, Some 60]) \<and>
      ssh_list_get_head h4 l4 = Inr (Some 50, h5, l5) \<and>
      ssh_list_traverse h5 (ssh_list_get_iterator l5) [] = Some (Inr [Some 60]) \<and>
      ssh_list_get_head h5 l5 = Inr (Some 60, h6, l6) \<and>
      ssh_list_traverse h6 (ssh_list_get_iterator l6) [] = Some (Inr []) \<and>
      ssh_list_get_head h6 l6 = Inr (None, h6, l6))"
proof -
  have new: "ssh_list_new True = Some \<lparr>list_root = None, list_end = None\<rparr>"
    by (simp add: ssh_list_new_def)
  have di: "distinct [4, 5, 6 :: addr]" by simp
  have fresh: "{4, 5, 6} \<inter> dom example_heap = {}" by (simp add: example_heap_def)
  from new di fresh
    get_head_fifo [OF new di fresh, of "Some 40" "Some 50" "Some 60"]
  show ?thesis by (intro conjI)
qed

text \<open>
  C4. Every operation preserves the list invariant \<open>list_inv\<close>: \<open>root\<close> is NULL exactly
  when \<open>end\<close> is NULL, and otherwise the chain from \<open>root\<close> along the \<open>next\<close> links has no
  repeated node and ends, with a NULL link, at the node \<open>end\<close> points to. This holds for
  \<open>ssh_list_add\<close> (whether \<open>malloc\<close> fails or delivers a block that was not live),
  for \<open>ssh_list_remove\<close> with any iterator value and for \<open>_ssh_list_get_head\<close>; each
  of them returns without a fault.
\<close>

theorem list_inv_preserved:
  assumes "list_inv h l as" and "a \<notin> dom h"
  shows "(\<exists>h' l'. ssh_list_add h l d None = Inr (SSH_ERROR, h', l') \<and> list_inv h' l' as) \<and>
         (\<exists>h' l'. ssh_list_add h l d (Some a) = Inr (SSH_OK, h', l') \<and>
            list_inv h' l' (as @ [a])) \<and>
         (\<exists>h' l'. ssh_list_remove h l iterator = Some (Inr (h', l')) \<and>
            list_inv h' l' (case iterator of None \<Rightarrow> as | Some b \<Rightarrow> remove1 b as)) \<and>
         (\<exists>r h' l'. ssh_list_get_head h l = Inr (r, h', l') \<and> list_inv h' l' (tl as))"
proof (intro conjI)
  show "\<exists>h' l'. ssh_list_add h l d None = Inr (SSH_ERROR, h', l') \<and> list_inv h' l' as"
    using assms(1) by (simp add: ssh_list_add_def ssh_iterator_new_def)
  show "\<exists>h' l'. ssh_list_add h l d (Some a) = Inr (SSH_OK, h', l') \<and>
          list_inv h' l' (as @ [a])"
    using add_inv [OF assms, of d] by blast
  show "\<exists>h' l'. ssh_list_remove h l iterator = Some (Inr (h', l')) \<and>
          list_inv h' l' (case iterator of None \<Rightarrow> as | Some b \<Rightarrow> remove1 b as)"
    by (rule remove_inv [OF assms(1)])
  show "\<exists>r h' l'. ssh_list_get_head h l = Inr (r, h', l') \<and> list_inv h' l' (tl as)"
  proof (cases as)
    case Nil
    with assms(1) pop_empty [of h l] show ?thesis by auto
  next
    case (Cons b bs)
    with assms(1) have "list_inv h l (b # bs)" by simp
    from pop_inv [OF this] Cons show ?thesis by auto
  qed
qed

theorem list_inv_preserved_witness:
  "list_inv example_heap example_list [1, 2] \<and> 4 \<notin> dom example_heap \<and>
   (\<exists>h' l'. ssh_list_add example_heap example_list (Some 40) None = Inr (SSH_ERROR, h', l') \<and>
      list_inv h' l' [1, 2]) \<and>
   (\<exists>h' l'. ssh_list_add example_heap example_list (Some 40) (Some 4) = Inr (SSH_OK, h', l') \<and>
      list_inv h' l' [1, 2, 4]) \<and>
   (\<exists>h' l'. ssh_list_remove example_heap example_list (Some 1) = Some (Inr (h', l')) \<and>
      list_inv h' l' [2]) \<and>
   (\<exists>r h' l'. ssh_list_get_head example_heap example_list = Inr (r, h', l') \<and>
      list_inv h' l' [2])"
proof -
  have inv: "list_inv example_heap example_list [1, 2]"
    by (simp add: list_inv_def example_heap_def example_list_def)
  have fresh: "4 \<notin> dom example_heap" by (simp add: example_heap_def)
  from list_inv_preserved [OF inv fresh, of "Some 40" "Some 1"] inv fresh
  show ?thesis by simp
qed

text \<open>
  C5. On a list that satisfies the invariant, \<open>ssh_list_remove\<close> with an iterator value
  that is no node of the chain (NULL, a node of another list, a dangling pointer) returns
  without a fault and leaves the store and the list as they were.
\<close>

theorem ssh_list_remove_not_found:
  assumes "list_inv h l as" and "iterator \<notin> Some ` set as"
  shows "ssh_list_remove h l iterator = Some (Inr (h, l))"
proof -
  from assms(2) have "\<forall>a. iterator = Some a \<longrightarrow> a \<notin> set as" by auto
  from remove_absent [OF assms(1) this] show ?thesis .
qed

theorem ssh_list_remove_not_found_witness:
  "list_inv example_heap example_list [1, 2] \<and> Some 3 \<notin> Some ` set [1, 2 :: addr] \<and>
   ssh_list_remove example_heap example_list (Some 3) = Some (Inr (example_heap, example_list))"
proof -
  have inv: "list_inv example_heap example_list [1, 2]"
    by (simp add: list_inv_def example_heap_def example_list_def)
  have out: "Some 3 \<notin> Some ` set [1, 2 :: addr]" by simp
  from inv out ssh_list_remove_not_found [OF inv out] show ?thesis by (intro conjI)
qed

text \<open>
  C6. When the allocation of the node fails, \<open>ssh_list_add\<close> returns \<open>SSH_ERROR\<close>, which
  differs from \<open>SSH_OK\<close>, and neither the list nor any node of the store has changed.
\<close>

theorem ssh_list_add_alloc_failure:
  "ssh_list_add h l d None = Inr (SSH_ERROR, h, l) \<and> SSH_ERROR \<noteq> SSH_OK"
  by (simp add: ssh_list_add_def ssh_iterator_new_def SSH_ERROR_def SSH_OK_def)

text \<open>
  C7. On a list that satisfies the invariant, a successful \<open>ssh_list_add\<close> followed by
  \<open>ssh_list_remove\<close> of the node just created gives back the list as it was: the same
  \<open>root\<close> and \<open>end\<close>, the same nodes with the same contents, hence the same sequence of
  data references on a walk.
\<close>

theorem add_then_remove_restores:
  assumes "list_inv h l as" and "a \<notin> dom h"
  shows "\<exists>h1 l1. ssh_list_add h l d (Some a) = Inr (SSH_OK, h1, l1) \<and>
           ssh_list_remove h1 l1 (Some a) = Some (Inr (h, l)) \<and>
           ssh_list_traverse h (ssh_list_get_iterator l) [] =
             Some (Inr (map (node_data h) as))"
proof -
  from add_remove_same [OF assms, of d] obtain h1 l1 where
    "ssh_list_add h l d (Some a) = Inr (SSH_OK, h1, l1)"
    "ssh_list_remove h1 l1 (Some a) = Some (Inr (h, l))" by blast
  moreover from assms(1) have "list_holds h l as (map (node_data h) as)"
    by (simp add: list_holds_def)
  note traverse_holds [OF this]
  ultimately show ?thesis by blast
qed

theorem add_then_remove_restores_witness:
  "list_inv example_heap example_list [1, 2] \<and> 4 \<notin> dom example_heap \<and>
   (\<exists>h1 l1. ssh_list_add example_heap example_list (Some 40) (Some 4) = Inr (SSH_OK, h1, l1) \<and>
      ssh_list_remove h1 l1 (Some 4) = Some (Inr (example_heap, example_list)) \<and>
      ssh_list_traverse example_heap (ssh_list_get_iterator example_list) [] =
        Some (Inr (map (node_data example_heap) [1, 2])))"
proof -
  have inv: "list_inv example_heap example_list [1, 2]"
    by (simp add: list_inv_def example_heap_def example_list_def)
  have fresh: "4 \<notin> dom example_heap" by (simp add: example_heap_def)
  from inv fresh add_then_remove_restores [OF inv fresh, of "Some 40"]
  show ?thesis by (intro conjI)
qed

text \<open>
  C9. \<open>_ssh_list_get_head\<close> returns NULL on the empty list, and it returns NULL as well
  when the head node stores a NULL data reference, which \<open>ssh_iterator_new\<close> stores like
  any other; the return value alone does not tell the two cases apart.
\<close>

theorem get_head_null_ambiguous:
  "(list_root l = None \<longrightarrow> ssh_list_get_head h l = Inr (None, h, l)) \<and>
   (list_root l = Some a \<and> h a = Some n \<and> iter_data n = None \<longrightarrow>
      (\<exists>h' l'. ssh_list_get_head h l = Inr (None, h', l'))) \<and>
   ssh_iterator_new h None (Some a) = (Some a, h(a \<mapsto> \<lparr>iter_next = None, iter_data = None\<rparr>))"
  by (simp add: ssh_list_get_head_def ssh_iterator_new_def Let_def)

theorem get_head_null_ambiguous_witness:
  "ssh_list_get_head Map.empty \<lparr>list_root = None, list_end = None\<rparr> =
     Inr (None, Map.empty, \<lparr>list_root = None, list_end = None\<rparr>) \<and>
   ssh_list_add Map.empty \<lparr>list_root = None, list_end = None\<rparr> None (Some 1) =
     Inr (SSH_OK, [1 \<mapsto> \<lparr>iter_next = None, iter_data = None\<rparr>],
          \<lparr>list_root = Some 1, list_end = Some 1\<rparr>) \<and>
   (\<exists>h' l'. ssh_list_get_head [1 \<mapsto> \<lparr>iter_next = None, iter_data = None\<rparr>]
               \<lparr>list_root = Some 1, list_end = Some 1\<rparr> = Inr (None, h', l'))"
proof -
  have add: "ssh_list_add Map.empty \<lparr>list_root = None, list_end = None\<rparr> None (Some 1) =
     Inr (SSH_OK, [1 \<mapsto> \<lparr>iter_next = None, iter_data = None\<rparr>],
          \<lparr>list_root = Some 1, list_end = Some 1\<rparr>)"
    by (simp add: ssh_list_add_def ssh_iterator_new_def)
  from get_head_null_ambiguous
         [of "\<lparr>list_root = None, list_end = None\<rparr>" Map.empty 1
             "\<lparr>iter_next = None, iter_data = None\<rparr>"]
  have empty: "ssh_list_get_head Map.empty \<lparr>list_root = None, list_end = None\<rparr> =
     Inr (None, Map.empty, \<lparr>list_root = None, list_end = None\<rparr>)"
    by simp
  from get_head_null_ambiguous
         [of "\<lparr>list_root = Some 1, list_end = Some 1\<rparr>"
             "[1 \<mapsto> \<lparr>iter_next = None, iter_data = None\<rparr>]" 1
             "\<lparr>iter_next = None, iter_data = None\<rparr>"]
  have null: "\<exists>h' l'. ssh_list_get_head [1 \<mapsto> \<lparr>iter_next = None, iter_data = None\<rparr>]
               \<lparr>list_root = Some 1, list_end = Some 1\<rparr> = Inr (None, h', l')"
    by simp
  from empty add null show ?thesis by (intro conjI)
qed

section \<open>The claims about \<open>ntohll\<close> and the path functions\<close>

text \<open>
  C8. On a little-endian host (the branch without \<open>WORDS_BIGENDIAN\<close>) \<open>ntohll\<close> is an
  involution, \<open>ntohll (ntohll a) = a\<close> for every 64-bit value, and it is so because it
  reverses the eight bytes of its argument: byte \<open>i\<close> of the argument is byte \<open>7 - i\<close> of
  the result.
\<close>

theorem ntohll_involution:
  "ntohll False (ntohll False a) = a \<and>
   ntohll False a =
     push_bit 56 (take_bit 8 a) OR
     push_bit 48 (take_bit 8 (drop_bit 8 a)) OR
     push_bit 40 (take_bit 8 (drop_bit 16 a)) OR
     push_bit 32 (take_bit 8 (drop_bit 24 a)) OR
     push_bit 24 (take_bit 8 (drop_bit 32 a)) OR
     push_bit 16 (take_bit 8 (drop_bit 40 a)) OR
     push_bit 8 (take_bit 8 (drop_bit 48 a)) OR
     take_bit 8 (drop_bit 56 a)"
  by (rule conjI [OF ntohll_ntohll ntohll_bytes])

text \<open>
  C2, at the input \<open>"abc/"\<close>. The claim asks for the basename \<open>"abc"\<close>, and the comment
  above \<open>ssh_basename\<close> says that trailing slashes do not count as part of the path name.
  The function strips them only to look for the last component: when no slash is left
  before that component it returns a copy of the whole path, trailing slashes included.
  The branch taken when a slash is left does strip them, as \<open>"/abc/"\<close> shows.
\<close>

theorem ssh_basename_keeps_trailing_slash:
  "ssh_basename True (Some ''abc/'') = Some ''abc/'' \<and>
   ssh_basename True (Some ''/abc/'') = Some ''abc''"
  by (simp add: ssh_basename_def uint_of_size_def strdup_def)

text \<open>
  C10, as stated for every path, fails on a path of \<open>2 ^ 32\<close> characters. The function
  keeps the length in an \<open>unsigned int\<close>: for \<open>2 ^ 32 - 4\<close> times \<open>a\<close>, then \<open>"///"\<close>, then
  \<open>"b"\<close>, the length it works with is 0, the first loop has nothing to strip and the
  result is \<open>"/"\<close>. With one slash the length is \<open>2 ^ 32 - 2\<close> and the result is the
  directory part, all the \<open>a\<close>s.
\<close>

theorem ssh_dirname_separator_slashes_counterexample:
  "replicate (2 ^ 32 - 4) CHR ''a'' \<noteq> [] \<and>
   CHR ''/'' \<notin> set (replicate (2 ^ 32 - 4) CHR ''a'') \<and>
   CHR ''/'' \<notin> set ''b'' \<and>
   ssh_dirname True (Some (replicate (2 ^ 32 - 4) CHR ''a'' @ ''///'' @ ''b'')) = Some ''/'' \<and>
   ssh_dirname True (Some (replicate (2 ^ 32 - 4) CHR ''a'' @ ''/'' @ ''b'')) =
     Some (replicate (2 ^ 32 - 4) CHR ''a'') \<and>
   ssh_dirname True (Some (replicate (2 ^ 32 - 4) CHR ''a'' @ ''///'' @ ''b'')) \<noteq>
     ssh_dirname True (Some (replicate (2 ^ 32 - 4) CHR ''a'' @ ''/'' @ ''b''))"
proof -
  have "(2 :: nat) ^ 32 - 4 + 4 = 2 ^ 32" by simp
  from dirname_wrap_example [OF this] show ?thesis .
qed

text \<open>
  C10, amended with the bound on the length. Let the path be \<open>d\<close>, then one or more
  slashes, then \<open>b\<close>, where \<open>b\<close> has no slash, \<open>d\<close> is neither empty nor made of slashes
  only, and the path is shorter than \<open>2 ^ 32\<close> characters, so that its length fits the
  \<open>unsigned int\<close> the function keeps it in. Then \<open>ssh_dirname\<close> returns what it returns for
  \<open>d\<close>, one slash and \<open>b\<close>: the number of separating slashes does not matter. When \<open>b\<close>
  is a component, that is, not empty, the result is \<open>d\<close> without its trailing slashes, so
  no separating slash is left at its end: \<open>"a"\<close> for \<open>"a///b"\<close>.
\<close>

theorem ssh_dirname_separator_slashes:
  assumes "d \<noteq> []" and "\<exists>c \<in> set d. c \<noteq> CHR ''/''" and "CHR ''/'' \<notin> set b"
    and "length (d @ replicate (Suc n) CHR ''/'' @ b) < 2 ^ 32"
  shows "ssh_dirname ok (Some (d @ replicate (Suc n) CHR ''/'' @ b)) =
           ssh_dirname ok (Some (d @ ''/'' @ b)) \<and>
         (b \<noteq> [] \<longrightarrow>
            ssh_dirname True (Some (d @ replicate (Suc n) CHR ''/'' @ b)) =
              Some (without_trailing_slashes d))"
proof (cases "b = []")
  case True
  from assms(4) True have l1: "length (d @ replicate (Suc n) CHR ''/'') < 2 ^ 32" by simp
  from assms(4) have l2: "length (d @ replicate (Suc 0) CHR ''/'') < 2 ^ 32" by simp
  have "ssh_dirname ok (Some (d @ replicate (Suc n) CHR ''/'')) = ssh_dirname ok (Some d)"
    by (rule dirname_trailing [OF assms(2) l1])
  moreover
  have "ssh_dirname ok (Some (d @ replicate (Suc 0) CHR ''/'')) = ssh_dirname ok (Some d)"
    by (rule dirname_trailing [OF assms(2) l2])
  ultimately show ?thesis using True by simp
next
  case False
  from assms(4) have l2: "length (d @ replicate (Suc 0) CHR ''/'' @ b) < 2 ^ 32" by simp
  have many: "ssh_dirname True (Some (d @ replicate (Suc n) CHR ''/'' @ b)) =
      Some (without_trailing_slashes d)"
    by (rule dirname_component [OF assms(1) assms(3) False _ assms(4)]) simp
  have one: "ssh_dirname True (Some (d @ replicate (Suc 0) CHR ''/'' @ b)) =
      Some (without_trailing_slashes d)"
    by (rule dirname_component [OF assms(1) assms(3) False _ l2]) simp
  have "ssh_dirname ok (Some (d @ replicate (Suc n) CHR ''/'' @ b)) =
      ssh_dirname ok (Some (d @ replicate (Suc 0) CHR ''/'' @ b))"
  proof (cases ok)
    case True
    with many one show ?thesis by (simp only:)
  next
    case False
    then show ?thesis by (simp add: ssh_dirname_def strdup_def Let_def del: replicate_Suc)
  qed
  with many show ?thesis by simp
qed

theorem ssh_dirname_separator_slashes_witness:
  "''a'' \<noteq> [] \<and> (\<exists>c \<in> set ''a''. c \<noteq> CHR ''/'') \<and> CHR ''/'' \<notin> set ''b'' \<and>
   length (''a'' @ replicate (Suc 2) CHR ''/'' @ ''b'') < 2 ^ 32 \<and> ''b'' \<noteq> [] \<and>
   ssh_dirname True (Some ''a///b'') = ssh_dirname True (Some ''a/b'') \<and>
   ssh_dirname True (Some ''a///b'') = Some ''a''"
proof -
  have h1: "''a'' \<noteq> []" by simp
  have h2: "\<exists>c \<in> set ''a''. c \<noteq> CHR ''/''" by simp
  have h3: "CHR ''/'' \<notin> set ''b''" by simp
  have h4: "length (''a'' @ replicate (Suc 2) CHR ''/'' @ ''b'') < 2 ^ 32" by simp
  have p: "''a'' @ replicate (Suc 2) CHR ''/'' @ ''b'' = ''a///b''"
    by (simp add: numeral_2_eq_2)
  have w: "without_trailing_slashes ''a'' = ''a''"
    by (simp add: without_trailing_slashes_def)
  note r = ssh_dirname_separator_slashes [OF h1 h2 h3 h4, of True, unfolded p w]
  have h5: "''b'' \<noteq> []" by simp
  have q: "''a'' @ ''/'' @ ''b'' = ''a/b''" by simp
  note same = conjunct1 [OF r, unfolded q]
  note res = mp [OF conjunct2 [OF r] h5]
  from h1 h2 h3 h4 h5 same res show ?thesis by (intro conjI)
qed

end
